theory Spec2Isabelle
  imports Main "HOL-Library.AList"
begin

section \<open>Shallow embedding of openadapt/crud.py\<close>

text \<open>
  Python exceptions are values of \<open>error\<close>; a function that may raise returns
  \<open>error + 'a\<close> with \<open>Inl\<close> the exception. Lists that the source mutates in
  place are passed in and returned.
\<close>

datatype error = AssertionError | IndexError | AttributeError | CommitFailure
  | DiffComputationFailure

subsection \<open>Schema: the fields of the model classes that crud.py reads\<close>

text \<open>
  Every event-like model has \<open>recording_timestamp\<close> and \<open>timestamp\<close>; \<open>_get\<close>
  filters on the first and orders by the second.
\<close>

record event_base =
  recording_timestamp :: int
  timestamp :: int

record action_event = event_base +
  name :: string
  canonical_key_char :: "string option"
  canonical_key_name :: "string option"

record recording =
  rec_timestamp :: int

subsection \<open>Python list primitives\<close>

text \<open>\<open>xs[i]\<close>: a negative index counts from the end, out of range raises IndexError.\<close>

definition py_index :: "'a list \<Rightarrow> int \<Rightarrow> error + 'a" where
  "py_index xs i =
     (if 0 \<le> i \<and> i < int (length xs) then Inr (xs ! nat i)
      else if i < 0 \<and> - int (length xs) \<le> i then Inr (xs ! nat (int (length xs) + i))
      else Inl IndexError)"

text \<open>\<open>for _ in range(0, k): xs.pop()\<close>: popping an empty list raises IndexError.\<close>

fun pop_n :: "nat \<Rightarrow> 'a list \<Rightarrow> error + 'a list" where
  "pop_n 0 xs = Inr xs"
| "pop_n (Suc k) xs = (if xs = [] then Inl IndexError else pop_n k (butlast xs))"

subsection \<open>filter_stop_sequences\<close>

text \<open>
  \<open>x in sequence\<close> for a nullable field \<open>x\<close> and a list of key tokens: \<open>None\<close> is
  never a token.
\<close>

definition field_in :: "string option \<Rightarrow> string list \<Rightarrow> bool" where
  "field_in x sq = (case x of None \<Rightarrow> False | Some c \<Rightarrow> c \<in> set sq)"

text \<open>
  The inner loop, \<open>for j in range(len(action_events) - 1, -1, -1)\<close>, for one
  sequence \<open>sq\<close>: the events are given last first, \<open>idx\<close> is
  \<open>stop_sequence_indices[i]\<close> and \<open>n\<close> is \<open>num_to_remove\<close>. The token
  \<open>sq[idx]\<close> is read first at every event, so an index out of range raises there.
\<close>

fun scan :: "string list \<Rightarrow> action_event list \<Rightarrow> int \<Rightarrow> nat \<Rightarrow> error + (int \<times> nat)" where
  "scan sq [] idx n = Inr (idx, n)"
| "scan sq (e # es) idx n =
     (case py_index sq idx of
        Inl err \<Rightarrow> Inl err
      | Inr tok \<Rightarrow>
          if (canonical_key_char e = Some tok \<or> canonical_key_name e = Some tok)
             \<and> name e = ''press''
          then scan sq es (idx - 1) (n + 1)
          else if name e = ''release''
                  \<and> (field_in (canonical_key_char e) sq \<or> field_in (canonical_key_name e) sq)
          then scan sq es idx (n + 1)
          else Inr (idx, n))"

text \<open>
  The outer loop over \<open>config.STOP_SEQUENCES\<close>, from sequence number \<open>i\<close> on. It
  returns \<open>(sequence_to_remove, num_to_remove)\<close>; \<open>num_to_remove\<close> is carried from
  one sequence to the next, as the source never resets it.
\<close>

fun try_sequences ::
  "string list list \<Rightarrow> action_event list \<Rightarrow> int \<Rightarrow> nat \<Rightarrow> error + (int \<times> nat)" where
  "try_sequences [] evs i n = Inr (-1, n)"
| "try_sequences (sq # sqs) evs i n =
     (case scan sq (rev evs) (int (length sq) - 1) n of
        Inl err \<Rightarrow> Inl err
      | Inr (idx, n') \<Rightarrow>
          if idx = -1 then Inr (i, n') else try_sequences sqs evs (i + 1) n')"

text \<open>
  \<open>filter_stop_sequences\<close>, with \<open>config.STOP_SEQUENCES\<close> as the parameter
  \<open>stop_sequences\<close>. The result is the list as the call leaves it.
\<close>

definition filter_stop_sequences ::
  "string list list \<Rightarrow> action_event list \<Rightarrow> error + action_event list" where
  "filter_stop_sequences stop_sequences action_events =
     (if length action_events \<ge> 2
         \<and> canonical_key_char (last action_events) = Some ''c''
         \<and> canonical_key_name (last (butlast action_events)) = Some ''ctrl''
      then Inr (butlast (butlast action_events))
      else
        (case try_sequences stop_sequences action_events 0 0 of
           Inl err \<Rightarrow> Inl err
         | Inr (sequence_to_remove, num_to_remove) \<Rightarrow>
             if sequence_to_remove \<noteq> -1 then pop_n num_to_remove action_events
             else Inr action_events))"

text \<open>Key events for the examples: a press or release of a character or of a named key.\<close>

definition key_event :: "string \<Rightarrow> string option \<Rightarrow> string option \<Rightarrow> action_event" where
  "key_event kind c k =
     \<lparr>recording_timestamp = 0, timestamp = 0, name = kind,
      canonical_key_char = c, canonical_key_name = k\<rparr>"

subsection \<open>The batched writer: _insert\<close>

text \<open>
  A dict is an association list in insertion order: \<open>map_of\<close> reads a key,
  \<open>AList.update\<close> assigns one (a new key goes last) and \<open>AList.delete\<close> is
  \<open>del\<close>. A value is \<open>'v option\<close>, with \<open>None\<close> for Python's None. A table
  is known by its name and the names of its columns.
\<close>

type_synonym 'v pydict = "(string \<times> 'v option) list"

record table =
  table_name :: string
  columns :: "string list"

text \<open>
  The session \<open>db\<close>: \<open>execute\<close> stands for \<open>db.execute(sa.insert(table), rows)\<close>
  and \<open>commit\<close> for \<open>db.commit()\<close>, each on a storage state \<open>'db\<close>; \<open>None\<close> is
  an exception raised by the storage.
\<close>

record ('v, 'db) session =
  execute :: "table \<Rightarrow> 'v pydict list \<Rightarrow> 'db \<Rightarrow> 'db option"
  commit :: "'db \<Rightarrow> 'db option"

datatype result = Result

text \<open>\<open>{column.name: None for column in table.__table__.columns}\<close>\<close>

definition empty_row :: "table \<Rightarrow> 'v pydict" where
  "empty_row tbl = fold (\<lambda>c. AList.update c None) (columns tbl) []"

text \<open>
  \<open>for key in db_obj: if key in event_data: ...\<close> over the keys still to visit
  (the keys of \<open>db_obj\<close> are the column names, which are distinct in a table); it
  returns \<open>db_obj\<close> and what is left of \<open>event_data\<close>.
\<close>

fun fill_columns :: "string list \<Rightarrow> 'v pydict \<Rightarrow> 'v pydict \<Rightarrow> 'v pydict \<times> 'v pydict" where
  "fill_columns [] db_obj event_data = (db_obj, event_data)"
| "fill_columns (key # keys) db_obj event_data =
     (case map_of event_data key of
        Some val \<Rightarrow>
          fill_columns keys (AList.update key val db_obj) (AList.delete key event_data)
      | None \<Rightarrow> fill_columns keys db_obj event_data)"

text \<open>The row that \<open>_insert\<close> builds from \<open>event_data\<close> for a table.\<close>

definition row_of :: "table \<Rightarrow> 'v pydict \<Rightarrow> 'v pydict" where
  "row_of tbl event_data = fst (fill_columns (columns tbl) (empty_row tbl) event_data)"

text \<open>
  \<open>_insert\<close>, with \<open>BATCH_SIZE\<close> as the parameter \<open>batch_size\<close>. The buffer is
  \<open>None\<close> or a list; the call returns what it returns or raises, together with the
  buffer and the storage as it leaves them.
\<close>

definition insert_row ::
  "int \<Rightarrow> ('v, 'db) session \<Rightarrow> 'v pydict \<Rightarrow> table \<Rightarrow> 'v pydict list option \<Rightarrow> 'db
     \<Rightarrow> (error + result option) \<times> 'v pydict list option \<times> 'db" where
  "insert_row batch_size db event_data tbl buffer st =
     (case fill_columns (columns tbl) (empty_row tbl) event_data of
        (db_obj, event_data') \<Rightarrow>
          if event_data' \<noteq> [] then (Inl AssertionError, buffer, st)
          else
            let buffer1 = (case buffer of None \<Rightarrow> None | Some b \<Rightarrow> Some (b @ [db_obj])) in
            if (case buffer1 of None \<Rightarrow> True | Some b \<Rightarrow> int (length b) \<ge> batch_size)
            then
              let to_insert = (case buffer1 of None \<Rightarrow> [db_obj]
                               | Some b \<Rightarrow> if b \<noteq> [] then b else [db_obj]) in
              (case execute db tbl to_insert st of
                 None \<Rightarrow> (Inl CommitFailure, buffer1, st)
               | Some st1 \<Rightarrow>
                   (case commit db st1 of
                      None \<Rightarrow> (Inl CommitFailure, buffer1, st1)
                    | Some st2 \<Rightarrow>
                        (Inr (Some Result),
                         (case buffer1 of None \<Rightarrow> None
                          | Some b \<Rightarrow> if b \<noteq> [] then Some [] else Some b),
                         st2)))
            else (Inr None, buffer1, st))"

definition BATCH_SIZE :: int where
  "BATCH_SIZE = 1"

text \<open>
  Successive calls of \<open>_insert\<close> on one table with one buffer, one call per element of
  the list; the first exception ends the run. It returns the calls' results.
\<close>

fun insert_rows ::
  "int \<Rightarrow> ('v, 'db) session \<Rightarrow> 'v pydict list \<Rightarrow> table \<Rightarrow> 'v pydict list option \<Rightarrow> 'db
     \<Rightarrow> (error + result option list) \<times> 'v pydict list option \<times> 'db" where
  "insert_rows batch_size db [] tbl buffer st = (Inr [], buffer, st)"
| "insert_rows batch_size db (event_data # rest) tbl buffer st =
     (case insert_row batch_size db event_data tbl buffer st of
        (Inl err, buffer', st') \<Rightarrow> (Inl err, buffer', st')
      | (Inr r, buffer', st') \<Rightarrow>
          (case insert_rows batch_size db rest tbl buffer' st' of
             (Inl err, buffer'', st'') \<Rightarrow> (Inl err, buffer'', st'')
           | (Inr rs, buffer'', st'') \<Rightarrow> (Inr (r # rs), buffer'', st'')))"

text \<open>
  A storage for the examples: the state is the list of committed multi-row inserts and
  the list of those executed and not yet committed.
\<close>

definition log_session :: "('v, 'v pydict list list \<times> 'v pydict list list) session" where
  "log_session =
     \<lparr>execute = (\<lambda>tbl rows (done, pending). Some (done, pending @ [rows])),
      commit = (\<lambda>(done, pending). Some (done @ pending, []))\<rparr>"

text \<open>A storage that rejects every insert.\<close>

definition failing_session :: "('v, 'v pydict list list \<times> 'v pydict list list) session" where
  "failing_session =
     \<lparr>execute = (\<lambda>tbl rows st. None), commit = (\<lambda>st. Some st)\<rparr>"

text \<open>
  Modelled from the spec: the ActionEvent table (models.py is not among the sources),
  with the columns that section 6 of the specification lists. The examples use it; the
  theorems hold for every table.
\<close>

definition action_event_table :: table where
  "action_event_table =
     \<lparr>table_name = ''action_event'',
      columns = [''recording_timestamp'', ''timestamp'', ''name'',
                 ''canonical_key_char'', ''canonical_key_name'']\<rparr>"

subsection \<open>Queries: _get and the accessors\<close>

text \<open>
  \<open>_get\<close>: the rows of one table that belong to the recording, in ascending
  timestamp order.
\<close>

definition get_rows :: "'a event_base_scheme list \<Rightarrow> int \<Rightarrow> 'a event_base_scheme list" where
  "get_rows rows recording_ts =
     sort_key timestamp (filter (\<lambda>r. recording_timestamp r = recording_ts) rows)"

text \<open>
  A screenshot. \<open>prev\<close> is a reference to a screenshot of the same list, held as that
  screenshot's position in the list; \<open>None\<close> is Python's None, the value of the
  attribute before \<open>get_screenshots\<close> sets it.
\<close>

type_synonym bytes = "nat list"

record screenshot = event_base +
  png_data :: bytes
  png_diff_data :: "bytes option"
  png_diff_mask_data :: "bytes option"
  prev :: "nat option"

record window_event = event_base +
  title :: string

record database =
  action_event_rows :: "action_event list"
  screenshot_rows :: "screenshot list"
  window_event_rows :: "window_event list"

text \<open>
  \<open>get_action_events\<close>; the argument is \<open>None\<close> when there is no such recording
  (what \<open>get_recording\<close> returns then), and \<open>assert recording\<close> fails on it.
\<close>

definition get_action_events ::
  "database \<Rightarrow> string list list \<Rightarrow> recording option \<Rightarrow> error + action_event list" where
  "get_action_events db stop_sequences rec =
     (case rec of
        None \<Rightarrow> Inl AssertionError
      | Some r \<Rightarrow>
          filter_stop_sequences stop_sequences (get_rows (action_event_rows db) (rec_timestamp r)))"

text \<open>\<open>get_window_events\<close>: \<open>recording.timestamp\<close> on None raises AttributeError.\<close>

definition get_window_events :: "database \<Rightarrow> recording option \<Rightarrow> error + window_event list" where
  "get_window_events db rec =
     (case rec of
        None \<Rightarrow> Inl AttributeError
      | Some r \<Rightarrow> Inr (get_rows (window_event_rows db) (rec_timestamp r)))"

subsection \<open>The screenshot diff chain\<close>

text \<open>\<open>not x\<close> for a nullable bytes field: None and the empty bytes are both false.\<close>

definition falsy :: "bytes option \<Rightarrow> bool" where
  "falsy x = (x = None \<or> x = Some [])"

text \<open>
  What the pass needs from outside crud.py. \<open>diff_binary cur_png prev_png\<close> stands for
  \<open>screenshot.convert_png_to_binary(screenshot.diff)\<close> and \<open>diff_mask_binary\<close> for the
  same on \<open>screenshot.diff_mask\<close>, both computed from the screenshot's image and its
  \<open>prev\<close>'s; \<open>None\<close> is an exception. \<open>bulk_save\<close> tells whether the storage
  takes \<open>db.bulk_save_objects(screenshots); db.commit()\<close>.
\<close>

record diff_env =
  diff_binary :: "bytes \<Rightarrow> bytes \<Rightarrow> bytes option"
  diff_mask_binary :: "bytes \<Rightarrow> bytes \<Rightarrow> bytes option"
  bulk_save :: "screenshot list \<Rightarrow> bool"

text \<open>
  The state of one pass: the list, \<open>data_updated\<close>, and a count of the diff
  computations made so far (a counter the source does not have).
\<close>

record pass =
  shots :: "screenshot list"
  data_updated :: bool
  computed :: nat

text \<open>
  The image of the screenshot a reference points to. A position outside the list is no
  object of the list; reading through it raises.
\<close>

definition prev_image :: "screenshot list \<Rightarrow> nat \<Rightarrow> bytes option" where
  "prev_image ss p = (if p < length ss then Some (png_data (ss ! p)) else None)"

text \<open>\<open>if not screenshot.png_diff_data: ...\<close> for the screenshot at position \<open>i\<close>.\<close>

definition fill_diff :: "diff_env \<Rightarrow> nat \<Rightarrow> nat \<Rightarrow> pass \<Rightarrow> error + pass" where
  "fill_diff env i p st =
     (let s = shots st ! i in
      if falsy (png_diff_data s) then
        (case prev_image (shots st) p of
           None \<Rightarrow> Inl AttributeError
         | Some img \<Rightarrow>
             (case diff_binary env (png_data s) img of
                None \<Rightarrow> Inl DiffComputationFailure
              | Some b \<Rightarrow>
                  Inr (st\<lparr>shots := (shots st)[i := s\<lparr>png_diff_data := Some b\<rparr>],
                          data_updated := True, computed := computed st + 1\<rparr>)))
      else Inr st)"

text \<open>\<open>if not screenshot.png_diff_mask_data: ...\<close> for the screenshot at position \<open>i\<close>.\<close>

definition fill_diff_mask :: "diff_env \<Rightarrow> nat \<Rightarrow> nat \<Rightarrow> pass \<Rightarrow> error + pass" where
  "fill_diff_mask env i p st =
     (let s = shots st ! i in
      if falsy (png_diff_mask_data s) then
        (case prev_image (shots st) p of
           None \<Rightarrow> Inl AttributeError
         | Some img \<Rightarrow>
             (case diff_mask_binary env (png_data s) img of
                None \<Rightarrow> Inl DiffComputationFailure
              | Some b \<Rightarrow>
                  Inr (st\<lparr>shots := (shots st)[i := s\<lparr>png_diff_mask_data := Some b\<rparr>],
                          data_updated := True, computed := computed st + 1\<rparr>)))
      else Inr st)"

text \<open>The body of \<open>for screenshot in screenshots\<close> at position \<open>i\<close>.\<close>

definition diff_step :: "diff_env \<Rightarrow> nat \<Rightarrow> pass \<Rightarrow> error + pass" where
  "diff_step env i st =
     (case prev (shots st ! i) of
        None \<Rightarrow> Inr st
      | Some p \<Rightarrow>
          (case fill_diff env i p st of
             Inl err \<Rightarrow> Inl err
           | Inr st1 \<Rightarrow> fill_diff_mask env i p st1))"

fun diff_loop :: "diff_env \<Rightarrow> nat list \<Rightarrow> pass \<Rightarrow> error + pass" where
  "diff_loop env [] st = Inr st"
| "diff_loop env (i # js) st =
     (case diff_step env i st of
        Inl err \<Rightarrow> Inl err
      | Inr st1 \<Rightarrow> diff_loop env js st1)"

text \<open>
  What a pass leaves: the list, the count of diff computations and the bulk writes it
  issued.
\<close>

record pass_result =
  screenshots :: "screenshot list"
  computations :: nat
  writes :: "screenshot list list"

definition save_screenshot_diff :: "diff_env \<Rightarrow> screenshot list \<Rightarrow> error + pass_result" where
  "save_screenshot_diff env ss =
     (case diff_loop env [0..<length ss] \<lparr>shots = ss, data_updated = False, computed = 0\<rparr> of
        Inl err \<Rightarrow> Inl err
      | Inr st \<Rightarrow>
          if data_updated st then
            (if bulk_save env (shots st)
             then Inr \<lparr>screenshots = shots st, computations = computed st,
                       writes = [shots st]\<rparr>
             else Inl CommitFailure)
          else Inr \<lparr>screenshots = shots st, computations = computed st, writes = []\<rparr>)"

text \<open>
  For stating what a pass does: the values the two diff fields of a screenshot \<open>s\<close>
  of the list \<open>ss\<close> are to have after it, and the number of computations it takes
  for \<open>s\<close>.
\<close>

definition diff_after :: "diff_env \<Rightarrow> screenshot list \<Rightarrow> screenshot \<Rightarrow> bytes option" where
  "diff_after env ss s =
     (case prev s of
        None \<Rightarrow> png_diff_data s
      | Some p \<Rightarrow>
          if falsy (png_diff_data s) then diff_binary env (png_data s) (png_data (ss ! p))
          else png_diff_data s)"

definition mask_after :: "diff_env \<Rightarrow> screenshot list \<Rightarrow> screenshot \<Rightarrow> bytes option" where
  "mask_after env ss s =
     (case prev s of
        None \<Rightarrow> png_diff_mask_data s
      | Some p \<Rightarrow>
          if falsy (png_diff_mask_data s)
          then diff_mask_binary env (png_data s) (png_data (ss ! p))
          else png_diff_mask_data s)"

definition absent_fields :: "screenshot \<Rightarrow> nat" where
  "absent_fields s =
     (case prev s of
        None \<Rightarrow> 0
      | Some p \<Rightarrow>
          (if falsy (png_diff_data s) then 1 else 0)
          + (if falsy (png_diff_mask_data s) then 1 else 0))"

definition stepped :: "diff_env \<Rightarrow> screenshot list \<Rightarrow> screenshot \<Rightarrow> screenshot" where
  "stepped env ss s =
     s\<lparr>png_diff_data := diff_after env ss s, png_diff_mask_data := mask_after env ss s\<rparr>"

text \<open>
  \<open>for prev, cur in zip(screenshots, screenshots[1:]): cur.prev = prev\<close>, then
  \<open>if screenshots: screenshots[0].prev = screenshots[0]\<close>.
\<close>

definition set_prev :: "nat \<times> nat \<Rightarrow> screenshot list \<Rightarrow> screenshot list" where
  "set_prev pc ss = ss[snd pc := (ss ! snd pc)\<lparr>prev := Some (fst pc)\<rparr>]"

definition link_prev :: "screenshot list \<Rightarrow> screenshot list" where
  "link_prev ss =
     (let ss1 = fold set_prev (zip [0..<length ss] (tl [0..<length ss])) ss
      in if ss1 \<noteq> [] then set_prev (0, 0) ss1 else ss1)"

text \<open>
  \<open>get_screenshots\<close>, with \<open>config.SAVE_SCREENSHOT_DIFF\<close> as the parameter
  \<open>save_diff\<close>.
\<close>

definition get_screenshots ::
  "database \<Rightarrow> bool \<Rightarrow> diff_env \<Rightarrow> recording option \<Rightarrow> error + pass_result" where
  "get_screenshots db save_diff env rec =
     (case rec of
        None \<Rightarrow> Inl AttributeError
      | Some r \<Rightarrow>
          (let ss = link_prev (get_rows (screenshot_rows db) (rec_timestamp r))
           in if save_diff then save_screenshot_diff env ss
              else Inr \<lparr>screenshots = ss, computations = 0, writes = []\<rparr>))"

text \<open>
  For the examples: a screenshot as the storage returns it, with no cached diff and no
  \<open>prev\<close>, and an environment whose diff of two images is their concatenation.
\<close>

definition raw_shot :: "int \<Rightarrow> bytes \<Rightarrow> screenshot" where
  "raw_shot ts img =
     \<lparr>recording_timestamp = 1, timestamp = ts, png_data = img, png_diff_data = None,
      png_diff_mask_data = None, prev = None\<rparr>"

definition concat_env :: diff_env where
  "concat_env =
     \<lparr>diff_binary = (\<lambda>a b. Some (a @ b)), diff_mask_binary = (\<lambda>a b. Some (b @ a)),
      bulk_save = (\<lambda>ss. True)\<rparr>"

text \<open>
  A storage for the examples: two screenshots of recording 1, stored out of order, and
  one of recording 2.
\<close>

definition example_db :: database where
  "example_db =
     \<lparr>action_event_rows = [],
      screenshot_rows = [raw_shot 20 [2], raw_shot 10 [1],
                         (raw_shot 5 [9])\<lparr>recording_timestamp := 2\<rparr>],
      window_event_rows = []\<rparr>"

section \<open>Stop-sequence trimmer\<close>

lemma pop_n_take: "k \<le> length xs \<Longrightarrow> pop_n k xs = Inr (take (length xs - k) xs)"
proof (induction k arbitrary: xs)
  case 0
  then show ?case by simp
next
  case (Suc k)
  then have ne: "xs \<noteq> []" by auto
  have "k \<le> length (butlast xs)" using Suc.prems by simp
  then have "pop_n k (butlast xs) = Inr (take (length (butlast xs) - k) (butlast xs))"
    by (rule Suc.IH)
  also have "take (length (butlast xs) - k) (butlast xs) = take (length xs - Suc k) xs"
    by (simp add: butlast_conv_take)
  finally show ?case using ne by simp
qed

lemma pop_n_empty: "length xs < k \<Longrightarrow> pop_n k xs = Inl IndexError"
proof (induction k arbitrary: xs)
  case 0
  then show ?case by simp
next
  case (Suc k)
  show ?case
  proof (cases "xs = []")
    case True
    then show ?thesis by simp
  next
    case False
    then have "length (butlast xs) < k" using Suc.prems by (cases xs) auto
    then show ?thesis using False Suc.IH by simp
  qed
qed

lemma last_butlast_nth:
  assumes "2 \<le> length xs"
  shows "last (butlast xs) = xs ! (length xs - 2)"
proof -
  have ne: "butlast xs \<noteq> []" using assms by (cases xs) auto
  have "last (butlast xs) = butlast xs ! (length (butlast xs) - 1)"
    using ne by (rule last_conv_nth)
  also have "\<dots> = xs ! (length xs - 2)"
    using assms by (simp add: nth_butlast numeral_2_eq_2)
  finally show ?thesis .
qed

text \<open>
  C3, as amended. If the list has at least two events, the last event's
  \<open>canonical_key_char\<close> is exactly the lower-case string "c" and the second-to-last
  event's \<open>canonical_key_name\<close> is "ctrl", then \<open>filter_stop_sequences\<close> returns the
  list without its last two events, whatever the configured stop sequences are: the
  configured-sequence path is not run (it could raise, or trim more).
\<close>

theorem filter_stop_sequences_ctrl_c:
  assumes "2 \<le> length evs"
    and "canonical_key_char (last evs) = Some ''c''"
    and "canonical_key_name (evs ! (length evs - 2)) = Some ''ctrl''"
  shows "filter_stop_sequences stop_sequences evs = Inr (take (length evs - 2) evs)"
proof -
  have l: "last (butlast evs) = evs ! (length evs - 2)"
    using assms(1) by (rule last_butlast_nth)
  have b: "butlast (butlast evs) = take (length evs - 2) evs"
    by (simp add: butlast_conv_take numeral_2_eq_2)
  show ?thesis using assms l b by (simp add: filter_stop_sequences_def)
qed

text \<open>
  Witness for C3: press(a), press(ctrl), press(c) with the stop sequence "c" configured;
  only press(a) is left.
\<close>

theorem filter_stop_sequences_ctrl_c_witness:
  "filter_stop_sequences [[''c'']]
     [key_event ''press'' (Some ''a'') None, key_event ''press'' None (Some ''ctrl''),
      key_event ''press'' (Some ''c'') None]
   = Inr [key_event ''press'' (Some ''a'') None]"
  using filter_stop_sequences_ctrl_c [of
    "[key_event ''press'' (Some ''a'') None, key_event ''press'' None (Some ''ctrl''),
      key_event ''press'' (Some ''c'') None]" "[[''c'']]"]
  by (simp add: key_event_def)

text \<open>
  Counterexample to C3 as stated: with the upper-case character "C" in
  \<open>canonical_key_char\<close> and "ctrl" before it, nothing is removed: the source compares
  the field with the string "c" and does no case folding.
\<close>

theorem filter_stop_sequences_upper_C_counterexample:
  "canonical_key_char (last [key_event ''press'' None (Some ''ctrl''),
                            key_event ''press'' (Some ''C'') None]) = Some ''C''
   \<and> canonical_key_name ([key_event ''press'' None (Some ''ctrl''),
                            key_event ''press'' (Some ''C'') None] ! 0) = Some ''ctrl''
   \<and> filter_stop_sequences []
        [key_event ''press'' None (Some ''ctrl''), key_event ''press'' (Some ''C'') None]
      = Inr [key_event ''press'' None (Some ''ctrl''), key_event ''press'' (Some ''C'') None]"
  by (simp add: filter_stop_sequences_def key_event_def)

text \<open>
  C1, evaluated where the source departs from it. With the sequences "a b" and "b"
  configured and the events press(x), press(b): the attempt on "a b" consumes press(b)
  and fails; the attempt on "b" alone consumes one event, press(b), and matches
  (cursor -1); but \<open>num_to_remove\<close> is 2 at the match, and both events are removed.
\<close>

theorem filter_stop_sequences_counts_failed_attempts:
  "scan [''a'', ''b'']
     (rev [key_event ''press'' (Some ''x'') None, key_event ''press'' (Some ''b'') None]) 1 0
   = Inr (0, 1)
   \<and> scan [''b'']
     (rev [key_event ''press'' (Some ''x'') None, key_event ''press'' (Some ''b'') None]) 0 0
   = Inr (-1, 1)
   \<and> try_sequences [[''a'', ''b''], [''b'']]
     [key_event ''press'' (Some ''x'') None, key_event ''press'' (Some ''b'') None] 0 0
   = Inr (1, 2)
   \<and> filter_stop_sequences [[''a'', ''b''], [''b'']]
     [key_event ''press'' (Some ''x'') None, key_event ''press'' (Some ''b'') None]
   = Inr []"
  by (simp add: filter_stop_sequences_def key_event_def py_index_def field_in_def)

text \<open>
  C4, evaluated where the source departs from it. (1) With the sequences "a b" and "b"
  configured and the single event press(b), \<open>num_to_remove\<close> is 2 at the match and
  the second pop is from an empty list: IndexError. (2) With the one sequence
  "ctrl ctrl ctrl" configured and seven presses of ctrl, the scan goes on after the
  full match, the cursor reaches -4, and reading the token raises IndexError.
\<close>

theorem filter_stop_sequences_raises:
  "filter_stop_sequences [[''a'', ''b''], [''b'']] [key_event ''press'' (Some ''b'') None]
   = Inl IndexError
   \<and> filter_stop_sequences [[''ctrl'', ''ctrl'', ''ctrl'']]
        (replicate 7 (key_event ''press'' None (Some ''ctrl'')))
   = Inl IndexError"
  by (simp add: filter_stop_sequences_def key_event_def py_index_def field_in_def
      numeral_eq_Suc)

section \<open>Batched writer\<close>

lemma fill_columns_rest:
  "snd (fill_columns keys db_obj ed) = [] \<longleftrightarrow> fst ` set ed \<subseteq> set keys"
proof (induction keys arbitrary: db_obj ed)
  case Nil
  then show ?case by simp
next
  case (Cons key keys)
  show ?case
  proof (cases "map_of ed key")
    case None
    then have "key \<notin> fst ` set ed" by (simp add: map_of_eq_None_iff)
    then have "fst ` set ed \<subseteq> set (key # keys) \<longleftrightarrow> fst ` set ed \<subseteq> set keys"
      by auto
    then show ?thesis using None Cons.IH by simp
  next
    case (Some val)
    have "fst ` set (AList.delete key ed) = fst ` set ed - {key}"
      by (simp add: AList.delete_eq) force
    then have "fst ` set (AList.delete key ed) \<subseteq> set keys
        \<longleftrightarrow> fst ` set ed \<subseteq> set (key # keys)"
      by auto
    then show ?thesis using Some Cons.IH by simp
  qed
qed

lemma insert_row_invalid:
  assumes "\<not> fst ` set ed \<subseteq> set (columns tbl)"
  shows "insert_row T db ed tbl buf st = (Inl AssertionError, buf, st)"
proof -
  obtain r rest where f: "fill_columns (columns tbl) (empty_row tbl) ed = (r, rest)"
    by (cases "fill_columns (columns tbl) (empty_row tbl) ed")
  have "rest \<noteq> []"
    using assms fill_columns_rest [of "columns tbl" "empty_row tbl" ed] f by simp
  then show ?thesis using f by (simp add: insert_row_def)
qed

lemma fill_columns_valid:
  assumes "fst ` set ed \<subseteq> set (columns tbl)"
  shows "fill_columns (columns tbl) (empty_row tbl) ed = (row_of tbl ed, [])"
  using assms fill_columns_rest [of "columns tbl" "empty_row tbl" ed]
  by (simp add: row_of_def prod_eq_iff)

lemma insert_row_valid_no_assertion:
  assumes "fst ` set ed \<subseteq> set (columns tbl)"
  shows "fst (insert_row T db ed tbl buf st) \<noteq> Inl AssertionError"
  using assms
  by (simp add: insert_row_def fill_columns_valid Let_def split: option.splits)

lemma insert_row_buffered:
  assumes "fst ` set ed \<subseteq> set (columns tbl)" and "int (length b) + 1 < T"
  shows "insert_row T db ed tbl (Some b) st = (Inr None, Some (b @ [row_of tbl ed]), st)"
  using assms by (simp add: insert_row_def fill_columns_valid)

lemma insert_row_commit:
  assumes "fst ` set ed \<subseteq> set (columns tbl)" and "T \<le> int (length b) + 1"
    and "execute db tbl (b @ [row_of tbl ed]) st = Some st1" and "commit db st1 = Some st2"
  shows "insert_row T db ed tbl (Some b) st = (Inr (Some Result), Some [], st2)"
  using assms by (simp add: insert_row_def fill_columns_valid)

lemma insert_rows_below:
  assumes "\<forall>ed \<in> set eds. fst ` set ed \<subseteq> set (columns tbl)"
    and "int (length b) + int (length eds) < T"
  shows "insert_rows T db eds tbl (Some b) st
         = (Inr (replicate (length eds) None), Some (b @ map (row_of tbl) eds), st)"
  using assms
proof (induction eds arbitrary: b)
  case Nil
  then show ?case by simp
next
  case (Cons ed eds)
  have 1: "insert_row T db ed tbl (Some b) st = (Inr None, Some (b @ [row_of tbl ed]), st)"
    using Cons.prems by (intro insert_row_buffered) auto
  have 2: "insert_rows T db eds tbl (Some (b @ [row_of tbl ed])) st
       = (Inr (replicate (length eds) None),
          Some ((b @ [row_of tbl ed]) @ map (row_of tbl) eds), st)"
    using Cons.prems by (intro Cons.IH) auto
  show ?case using 1 2 by simp
qed

lemma insert_rows_reach:
  assumes "\<forall>ed \<in> set eds. fst ` set ed \<subseteq> set (columns tbl)"
    and "int (length b) + int (length eds) = T" and "eds \<noteq> []"
    and "execute db tbl (b @ map (row_of tbl) eds) st = Some st1"
    and "commit db st1 = Some st2"
  shows "insert_rows T db eds tbl (Some b) st
         = (Inr (replicate (length eds - 1) None @ [Some Result]), Some [], st2)"
  using assms
proof (induction eds arbitrary: b)
  case Nil
  then show ?case by simp
next
  case (Cons ed eds)
  show ?case
  proof (cases "eds = []")
    case True
    have "insert_row T db ed tbl (Some b) st = (Inr (Some Result), Some [], st2)"
      using Cons.prems True by (intro insert_row_commit [where ?st1.0 = st1]) auto
    then show ?thesis using True by simp
  next
    case False
    have 1: "insert_row T db ed tbl (Some b) st = (Inr None, Some (b @ [row_of tbl ed]), st)"
      using Cons.prems False by (intro insert_row_buffered) (auto simp: Suc_le_eq)
    have 2: "insert_rows T db eds tbl (Some (b @ [row_of tbl ed])) st
         = (Inr (replicate (length eds - 1) None @ [Some Result]), Some [], st2)"
      using Cons.prems False by (intro Cons.IH) auto
    have 3: "replicate (length (ed # eds) - 1) None
         = (None :: result option) # replicate (length eds - 1) None"
      using False by (cases eds) auto
    show ?thesis using 1 2 unfolding 3 by simp
  qed
qed

text \<open>
  C2. Let the threshold \<open>T\<close> be at least 1, the buffer start empty, and every offered
  record have declared columns only. After fewer than \<open>T\<close> calls every call has
  returned None, the storage is untouched and the buffer holds the rows built so far,
  in order. After exactly \<open>T\<close> calls, if the storage takes the insert and the commit,
  the storage is the result of one \<open>execute\<close> on all \<open>T\<close> rows followed by one
  \<open>commit\<close>, the last call has returned the insert's result and the buffer is empty.
\<close>

theorem insert_rows_batch_threshold:
  assumes "1 \<le> T"
    and "\<forall>ed \<in> set eds. fst ` set ed \<subseteq> set (columns tbl)"
  shows "(int (length eds) < T \<longrightarrow>
            insert_rows T db eds tbl (Some []) st
            = (Inr (replicate (length eds) None), Some (map (row_of tbl) eds), st))
       \<and> (int (length eds) = T \<longrightarrow>
            execute db tbl (map (row_of tbl) eds) st = Some st1 \<longrightarrow>
            commit db st1 = Some st2 \<longrightarrow>
            insert_rows T db eds tbl (Some []) st
            = (Inr (replicate (length eds - 1) None @ [Some Result]), Some [], st2))"
proof (intro conjI impI)
  assume "int (length eds) < T"
  then show "insert_rows T db eds tbl (Some []) st
      = (Inr (replicate (length eds) None), Some (map (row_of tbl) eds), st)"
    using insert_rows_below [OF assms(2), of "[]" T db st] by simp
next
  assume len: "int (length eds) = T"
    and ex: "execute db tbl (map (row_of tbl) eds) st = Some st1"
    and co: "commit db st1 = Some st2"
  have ne: "eds \<noteq> []" using len assms(1) by auto
  show "insert_rows T db eds tbl (Some []) st
      = (Inr (replicate (length eds - 1) None @ [Some Result]), Some [], st2)"
    using insert_rows_reach [OF assms(2) _ ne, of "[]" T db st st1 st2] len ex co by simp
qed

text \<open>
  Witness for C2, with threshold 2 on the logging storage: after one call nothing is
  committed and one row is pending; after two calls one insert of two rows is committed
  and the buffer is empty.
\<close>

theorem insert_rows_batch_threshold_witness:
  "insert_rows 2 log_session [[(''name'', Some ''press'')]] action_event_table (Some [])
     ([], [])
   = (Inr [None], Some [row_of action_event_table [(''name'', Some ''press'')]], ([], []))
   \<and> insert_rows 2 log_session [[(''name'', Some ''press'')], [(''name'', Some ''release'')]]
       action_event_table (Some []) ([], [])
   = (Inr [None, Some Result], Some [],
      ([[row_of action_event_table [(''name'', Some ''press'')],
         row_of action_event_table [(''name'', Some ''release'')]]], []))"
proof -
  have v1: "\<forall>ed \<in> set [[(''name'', Some ''press'')]].
      fst ` set ed \<subseteq> set (columns action_event_table)"
    by (simp add: action_event_table_def)
  have v2: "\<forall>ed \<in> set [[(''name'', Some ''press'')], [(''name'', Some ''release'')]].
      fst ` set ed \<subseteq> set (columns action_event_table)"
    by (simp add: action_event_table_def)
  have T: "(1::int) \<le> 2" by simp
  have a: "insert_rows 2 log_session [[(''name'', Some ''press'')]] action_event_table
      (Some []) ([], [])
    = (Inr [None], Some [row_of action_event_table [(''name'', Some ''press'')]], ([], []))"
    using insert_rows_batch_threshold [OF T v1, of log_session "([], [])"] by simp
  have b: "insert_rows 2 log_session [[(''name'', Some ''press'')], [(''name'', Some ''release'')]]
       action_event_table (Some []) ([], [])
   = (Inr [None, Some Result], Some [],
      ([[row_of action_event_table [(''name'', Some ''press'')],
         row_of action_event_table [(''name'', Some ''release'')]]], []))"
    using insert_rows_batch_threshold [OF T v2, of log_session "([], [])"
        "([], [[row_of action_event_table [(''name'', Some ''press'')],
                row_of action_event_table [(''name'', Some ''release'')]]])"
        "([[row_of action_event_table [(''name'', Some ''press'')],
            row_of action_event_table [(''name'', Some ''release'')]]], [])"]
    by (simp add: log_session_def)
  show ?thesis using a b by simp
qed

text \<open>
  C7, as amended. A call of \<open>_insert\<close> fails its assertion if and only if the record
  has a field that is not a column of the table, and then it leaves the buffer and the
  storage as they were. Whether the two timestamps are among the fields plays no part.
\<close>

theorem insert_row_assertion_iff:
  "(fst (insert_row T db ed tbl buf st) = Inl AssertionError
      \<longleftrightarrow> \<not> fst ` set ed \<subseteq> set (columns tbl))
   \<and> (insert_row T db ed tbl buf st = (Inl AssertionError, buf, st)
      \<longleftrightarrow> \<not> fst ` set ed \<subseteq> set (columns tbl))"
proof (cases "fst ` set ed \<subseteq> set (columns tbl)")
  case True
  have "fst (insert_row T db ed tbl buf st) \<noteq> Inl AssertionError"
    using True by (rule insert_row_valid_no_assertion)
  moreover from this have "insert_row T db ed tbl buf st \<noteq> (Inl AssertionError, buf, st)"
    by auto
  ultimately show ?thesis using True by simp
next
  case False
  then have "insert_row T db ed tbl buf st = (Inl AssertionError, buf, st)"
    by (rule insert_row_invalid)
  then show ?thesis using False by simp
qed

text \<open>
  Witness for C7: a record with the undeclared field "colour" is refused, and the two
  rows already buffered stay as they are.
\<close>

theorem insert_row_assertion_iff_witness:
  "insert_row 1 log_session [(''timestamp'', Some ''7''), (''colour'', Some ''red'')]
     action_event_table (Some [[(''name'', None)]]) ([], [])
   = (Inl AssertionError, Some [[(''name'', None)]], ([], []))"
  using insert_row_assertion_iff [of 1 log_session
      "[(''timestamp'', Some ''7''), (''colour'', Some ''red'')]" action_event_table
      "Some [[(''name'', None)]]" "([], [])"]
  by (simp add: action_event_table_def)

text \<open>
  Counterexample to C7 as stated: a record that has neither timestamp and only
  declared fields is not refused; it is committed with None in both timestamp columns.
\<close>

theorem insert_row_without_timestamps_counterexample:
  "\<not> {''timestamp'', ''recording_timestamp''} \<subseteq> fst ` set [(''name'', Some ''press'')]
   \<and> fst ` set [(''name'', Some ''press'')] \<subseteq> set (columns action_event_table)
   \<and> insert_row 1 log_session [(''name'', Some ''press'')] action_event_table (Some [])
        ([], [])
     = (Inr (Some Result), Some [],
        ([[[(''recording_timestamp'', None), (''timestamp'', None),
            (''name'', Some ''press''), (''canonical_key_char'', None),
            (''canonical_key_name'', None)]]], []))"
  by (simp add: insert_row_def action_event_table_def empty_row_def log_session_def)

text \<open>
  C8. When a buffered call attempts the commit (the buffer, with the new row, has
  reached the threshold) and the storage raises, at the insert or at the commit, the
  call raises CommitFailure and the buffer holds all its rows, the new one included.
\<close>

theorem insert_row_commit_failure_keeps_buffer:
  assumes "fst ` set ed \<subseteq> set (columns tbl)" and "T \<le> int (length b) + 1"
    and "execute db tbl (b @ [row_of tbl ed]) st = None
         \<or> (\<exists>st1. execute db tbl (b @ [row_of tbl ed]) st = Some st1 \<and> commit db st1 = None)"
  shows "fst (insert_row T db ed tbl (Some b) st) = Inl CommitFailure
         \<and> fst (snd (insert_row T db ed tbl (Some b) st)) = Some (b @ [row_of tbl ed])"
  using assms by (auto simp add: insert_row_def fill_columns_valid)

text \<open>
  Witness for C8: threshold 2, one row buffered, a storage that rejects every insert;
  the call raises and both rows are in the buffer.
\<close>

theorem insert_row_commit_failure_keeps_buffer_witness:
  "fst (insert_row 2 failing_session [(''name'', Some ''release'')] action_event_table
          (Some [row_of action_event_table [(''name'', Some ''press'')]]) ([], []))
   = Inl CommitFailure
   \<and> fst (snd (insert_row 2 failing_session [(''name'', Some ''release'')] action_event_table
          (Some [row_of action_event_table [(''name'', Some ''press'')]]) ([], [])))
   = Some [row_of action_event_table [(''name'', Some ''press'')],
           row_of action_event_table [(''name'', Some ''release'')]]"
proof -
  have v: "fst ` set [(''name'', Some ''release'')] \<subseteq> set (columns action_event_table)"
    by (simp add: action_event_table_def)
  have t: "(2::int) \<le> int (length [row_of action_event_table [(''name'', Some ''press'')]]) + 1"
    by simp
  have f: "execute failing_session action_event_table
       ([row_of action_event_table [(''name'', Some ''press'')]]
        @ [row_of action_event_table [(''name'', Some ''release'')]]) ([], []) = None"
    by (simp add: failing_session_def)
  show ?thesis
    using insert_row_commit_failure_keeps_buffer [OF v t disjI1, OF f] by simp
qed

section \<open>Screenshot diff chain\<close>

lemma fill_diff_Inr:
  assumes "fill_diff env i p st = Inr st'"
  shows "shots st' = (shots st)[i := (shots st ! i)\<lparr>png_diff_data :=
            (if falsy (png_diff_data (shots st ! i))
             then diff_binary env (png_data (shots st ! i)) (png_data (shots st ! p))
             else png_diff_data (shots st ! i))\<rparr>]"
    and "computed st' = computed st + (if falsy (png_diff_data (shots st ! i)) then 1 else 0)"
    and "data_updated st' = (data_updated st \<or> falsy (png_diff_data (shots st ! i)))"
proof -
  show "shots st' = (shots st)[i := (shots st ! i)\<lparr>png_diff_data :=
            (if falsy (png_diff_data (shots st ! i))
             then diff_binary env (png_data (shots st ! i)) (png_data (shots st ! p))
             else png_diff_data (shots st ! i))\<rparr>]"
    using assms
    by (cases "falsy (png_diff_data (shots st ! i))")
       (auto simp: fill_diff_def Let_def prev_image_def split: if_splits option.splits)
  show "computed st' = computed st + (if falsy (png_diff_data (shots st ! i)) then 1 else 0)"
    using assms
    by (cases "falsy (png_diff_data (shots st ! i))")
       (auto simp: fill_diff_def Let_def prev_image_def split: if_splits option.splits)
  show "data_updated st' = (data_updated st \<or> falsy (png_diff_data (shots st ! i)))"
    using assms
    by (cases "falsy (png_diff_data (shots st ! i))")
       (auto simp: fill_diff_def Let_def prev_image_def split: if_splits option.splits)
qed


lemma fill_diff_mask_Inr:
  assumes "fill_diff_mask env i p st = Inr st'"
  shows "shots st' = (shots st)[i := (shots st ! i)\<lparr>png_diff_mask_data :=
            (if falsy (png_diff_mask_data (shots st ! i))
             then diff_mask_binary env (png_data (shots st ! i)) (png_data (shots st ! p))
             else png_diff_mask_data (shots st ! i))\<rparr>]"
    and "computed st' = computed st
           + (if falsy (png_diff_mask_data (shots st ! i)) then 1 else 0)"
    and "data_updated st' = (data_updated st \<or> falsy (png_diff_mask_data (shots st ! i)))"
proof -
  show "shots st' = (shots st)[i := (shots st ! i)\<lparr>png_diff_mask_data :=
            (if falsy (png_diff_mask_data (shots st ! i))
             then diff_mask_binary env (png_data (shots st ! i)) (png_data (shots st ! p))
             else png_diff_mask_data (shots st ! i))\<rparr>]"
    using assms
    by (cases "falsy (png_diff_mask_data (shots st ! i))")
       (auto simp: fill_diff_mask_def Let_def prev_image_def split: if_splits option.splits)
  show "computed st' = computed st
           + (if falsy (png_diff_mask_data (shots st ! i)) then 1 else 0)"
    using assms
    by (cases "falsy (png_diff_mask_data (shots st ! i))")
       (auto simp: fill_diff_mask_def Let_def prev_image_def split: if_splits option.splits)
  show "data_updated st' = (data_updated st \<or> falsy (png_diff_mask_data (shots st ! i)))"
    using assms
    by (cases "falsy (png_diff_mask_data (shots st ! i))")
       (auto simp: fill_diff_mask_def Let_def prev_image_def split: if_splits option.splits)
qed

lemma diff_step_None:
  assumes "diff_step env i st = Inr st'" and "prev (shots st ! i) = None"
  shows "st' = st"
  using assms by (simp add: diff_step_def)

lemma stepped_None:
  assumes "prev s = None"
  shows "stepped env ss s = s" and "absent_fields s = 0"
  using assms by (simp_all add: stepped_def diff_after_def mask_after_def absent_fields_def)

lemma diff_step_Some:
  assumes "diff_step env i st = Inr st'" and "i < length (shots st)"
    and "prev (shots st ! i) = Some p"
  shows "shots st' = (shots st)[i := stepped env (shots st) (shots st ! i)]"
    and "computed st' = computed st + absent_fields (shots st ! i)"
    and "data_updated st' = (data_updated st \<or> 0 < absent_fields (shots st ! i))"
proof -
  obtain st1 where 1: "fill_diff env i p st = Inr st1"
    and 2: "fill_diff_mask env i p st1 = Inr st'"
    using assms(1,3) by (auto simp: diff_step_def split: sum.splits)
  note a = fill_diff_Inr [OF 1]
  note b = fill_diff_mask_Inr [OF 2]
  have pd: "png_data (shots st1 ! p) = png_data (shots st ! p)"
    using assms(2) by (cases "p = i") (simp_all add: a(1))
  have s1: "png_diff_mask_data (shots st1 ! i) = png_diff_mask_data (shots st ! i)"
    "png_data (shots st1 ! i) = png_data (shots st ! i)"
    using assms(2) by (simp_all add: a(1))
  show "shots st' = (shots st)[i := stepped env (shots st) (shots st ! i)]"
    unfolding b(1) s1 pd using assms(2,3)
    by (simp add: a(1) stepped_def diff_after_def mask_after_def)
  show "computed st' = computed st + absent_fields (shots st ! i)"
    unfolding b(2) s1 a(2) using assms(3) by (simp add: absent_fields_def)
  show "data_updated st' = (data_updated st \<or> 0 < absent_fields (shots st ! i))"
    unfolding b(3) s1 a(3) using assms(3) by (auto simp add: absent_fields_def)
qed

lemma diff_step_Inr:
  assumes "diff_step env i st = Inr st'" and "i < length (shots st)"
  shows "shots st' = (shots st)[i := stepped env (shots st) (shots st ! i)]"
    and "computed st' = computed st + absent_fields (shots st ! i)"
    and "data_updated st' = (data_updated st \<or> 0 < absent_fields (shots st ! i))"
proof -
  have "shots st' = (shots st)[i := stepped env (shots st) (shots st ! i)]
      \<and> computed st' = computed st + absent_fields (shots st ! i)
      \<and> data_updated st' = (data_updated st \<or> 0 < absent_fields (shots st ! i))"
  proof (cases "prev (shots st ! i)")
    case None
    show ?thesis
      using diff_step_None [OF assms(1) None] stepped_None [OF None] by simp
  next
    case (Some p)
    show ?thesis
      using diff_step_Some [OF assms Some] by simp
  qed
  then show "shots st' = (shots st)[i := stepped env (shots st) (shots st ! i)]"
    and "computed st' = computed st + absent_fields (shots st ! i)"
    and "data_updated st' = (data_updated st \<or> 0 < absent_fields (shots st ! i))"
    by simp_all
qed


lemma stepped_fields:
  "png_data (stepped env ss s) = png_data s"
  "prev (stepped env ss s) = prev s"
  "png_diff_data (stepped env ss s) = diff_after env ss s"
  "png_diff_mask_data (stepped env ss s) = mask_after env ss s"
  by (simp_all add: stepped_def)

lemma stepped_cong:
  assumes "\<forall>p. png_data (ss' ! p) = png_data (ss ! p)"
  shows "stepped env ss' s = stepped env ss s"
  using assms by (simp add: stepped_def diff_after_def mask_after_def split: option.splits)

lemma diff_loop_Inr:
  assumes "diff_loop env js st = Inr st'" and "distinct js"
    and "\<forall>j \<in> set js. j < length (shots st)"
  shows "length (shots st') = length (shots st)
       \<and> (\<forall>j < length (shots st). shots st' ! j
             = (if j \<in> set js then stepped env (shots st) (shots st ! j) else shots st ! j))
       \<and> computed st' = computed st + sum_list (map (\<lambda>j. absent_fields (shots st ! j)) js)
       \<and> data_updated st'
           = (data_updated st \<or> (\<exists>j \<in> set js. 0 < absent_fields (shots st ! j)))"
  using assms
proof (induction js arbitrary: st)
  case Nil
  then show ?case by simp
next
  case (Cons i js)
  from Cons.prems(1) obtain st1 where s1: "diff_step env i st = Inr st1"
    and l1: "diff_loop env js st1 = Inr st'"
    by (auto split: sum.splits)
  have ilen: "i < length (shots st)" using Cons.prems(3) by simp
  note d = diff_step_Inr [OF s1 ilen]
  have len1: "length (shots st1) = length (shots st)" by (simp add: d(1))
  have inot: "i \<notin> set js" and dj: "distinct js" using Cons.prems(2) by simp_all
  have other: "shots st1 ! j = shots st ! j" if "j \<noteq> i" for j
    using that by (simp add: d(1))
  have pd: "\<forall>p. png_data (shots st1 ! p) = png_data (shots st ! p)"
  proof
    fix p
    show "png_data (shots st1 ! p) = png_data (shots st ! p)"
      using ilen by (cases "p = i") (simp_all add: d(1) stepped_fields)
  qed
  have bound: "\<forall>j \<in> set js. j < length (shots st1)"
    using Cons.prems(3) len1 by simp
  note ih = Cons.IH [OF l1 dj bound]
  have in_js: "shots st1 ! j = shots st ! j" if "j \<in> set js" for j
  proof -
    have "j \<noteq> i" using that inot by auto
    then show ?thesis by (rule other)
  qed
  have A: "length (shots st') = length (shots st)" using ih len1 by simp
  have B: "\<forall>j < length (shots st). shots st' ! j
      = (if j \<in> set (i # js) then stepped env (shots st) (shots st ! j) else shots st ! j)"
  proof (intro allI impI)
    fix j
    assume jl: "j < length (shots st)"
    then have e: "shots st' ! j
        = (if j \<in> set js then stepped env (shots st1) (shots st1 ! j) else shots st1 ! j)"
      using ih len1 by simp
    show "shots st' ! j
      = (if j \<in> set (i # js) then stepped env (shots st) (shots st ! j) else shots st ! j)"
    proof (cases "j = i")
      case True
      have "shots st' ! i = shots st1 ! i" using e inot True by simp
      also have "\<dots> = stepped env (shots st) (shots st ! i)"
        using ilen by (simp add: d(1))
      finally show ?thesis using True by simp
    next
      case False
      have "shots st' ! j
        = (if j \<in> set js then stepped env (shots st) (shots st ! j) else shots st ! j)"
        unfolding e other [OF False] stepped_cong [OF pd] ..
      then show ?thesis using False by simp
    qed
  qed
  have me: "map (\<lambda>j. absent_fields (shots st1 ! j)) js
      = map (\<lambda>j. absent_fields (shots st ! j)) js"
    using in_js by simp
  have "computed st' = computed st1 + sum_list (map (\<lambda>j. absent_fields (shots st1 ! j)) js)"
    using ih by simp
  then have C: "computed st'
      = computed st + sum_list (map (\<lambda>j. absent_fields (shots st ! j)) (i # js))"
    unfolding me d(2) by simp
  have be: "(\<exists>j \<in> set js. 0 < absent_fields (shots st1 ! j))
      = (\<exists>j \<in> set js. 0 < absent_fields (shots st ! j))"
    using in_js by simp
  have "data_updated st'
      = (data_updated st1 \<or> (\<exists>j \<in> set js. 0 < absent_fields (shots st1 ! j)))"
    using ih by simp
  then have D: "data_updated st'
      = (data_updated st \<or> (\<exists>j \<in> set (i # js). 0 < absent_fields (shots st ! j)))"
    unfolding be d(3) by auto
  show ?case using A B C D by blast
qed


lemma save_screenshot_diff_Inr:
  assumes "save_screenshot_diff env ss = Inr res"
  shows "screenshots res = map (stepped env ss) ss"
    and "computations res = sum_list (map absent_fields ss)"
    and "writes res = (if 0 < computations res then [screenshots res] else [])"
proof -
  let ?st0 = "\<lparr>shots = ss, data_updated = False, computed = 0\<rparr>"
  obtain st where l: "diff_loop env [0..<length ss] ?st0 = Inr st"
    using assms by (auto simp: save_screenshot_diff_def split: sum.splits)
  have r: "screenshots res = shots st" "computations res = computed st"
    "writes res = (if data_updated st then [shots st] else [])"
    using assms l by (auto simp: save_screenshot_diff_def split: if_splits)
  have inv: "length (shots st) = length ss
       \<and> (\<forall>j < length ss. shots st ! j = stepped env ss (ss ! j))
       \<and> computed st = sum_list (map (\<lambda>j. absent_fields (ss ! j)) [0..<length ss])
       \<and> data_updated st = (\<exists>j \<in> set [0..<length ss]. 0 < absent_fields (ss ! j))"
    using diff_loop_Inr [OF l] by simp
  have m: "map (\<lambda>j. absent_fields (ss ! j)) [0..<length ss] = map absent_fields ss"
    by (intro nth_equalityI) simp_all
  show 1: "screenshots res = map (stepped env ss) ss"
    using inv r(1) by (intro nth_equalityI) simp_all
  show 2: "computations res = sum_list (map absent_fields ss)"
    using inv r(2) m by simp
  have "(\<exists>j \<in> set [0..<length ss]. 0 < absent_fields (ss ! j))
      = (\<exists>s \<in> set ss. 0 < absent_fields s)"
    by (simp add: Bex_def in_set_conv_nth) blast
  then have "data_updated st = (\<exists>s \<in> set ss. 0 < absent_fields s)"
    using inv by simp
  also have "\<dots> = (0 < sum_list (map absent_fields ss))"
    by (induction ss) auto
  finally have "data_updated st = (0 < sum_list (map absent_fields ss))" .
  then show "writes res = (if 0 < computations res then [screenshots res] else [])"
    using r 2 by simp
qed

lemma zip_upt_tl: "zip [0..<n] (tl [0..<n]) = map (\<lambda>k. (k, Suc k)) [0..<n - 1]"
  by (intro nth_equalityI) (simp_all add: nth_tl)

lemma fold_set_prev:
  assumes "m < length ss"
  shows "length (fold set_prev (map (\<lambda>k. (k, Suc k)) [0..<m]) ss) = length ss
       \<and> (\<forall>j < length ss. fold set_prev (map (\<lambda>k. (k, Suc k)) [0..<m]) ss ! j
             = (if 1 \<le> j \<and> j \<le> m then (ss ! j)\<lparr>prev := Some (j - 1)\<rparr> else ss ! j))"
  using assms
proof (induction m)
  case 0
  then show ?case by simp
next
  case (Suc m)
  let ?r = "fold set_prev (map (\<lambda>k. (k, Suc k)) [0..<m]) ss"
  have ih: "length ?r = length ss"
    "\<forall>j < length ss. ?r ! j
        = (if 1 \<le> j \<and> j \<le> m then (ss ! j)\<lparr>prev := Some (j - 1)\<rparr> else ss ! j)"
    using Suc by simp_all
  have r: "fold set_prev (map (\<lambda>k. (k, Suc k)) [0..<Suc m]) ss
      = ?r[Suc m := (?r ! Suc m)\<lparr>prev := Some m\<rparr>]"
    by (simp add: set_prev_def)
  have rs: "?r ! Suc m = ss ! Suc m" using ih(2) Suc.prems by simp
  show ?case
    unfolding r rs using ih Suc.prems by (auto simp: nth_list_update)
qed

lemma link_prev_nth:
  "length (link_prev ss) = length ss"
  "j < length ss \<Longrightarrow>
     link_prev ss ! j = (ss ! j)\<lparr>prev := Some (if j = 0 then 0 else j - 1)\<rparr>"
proof -
  define r where "r = fold set_prev (zip [0..<length ss] (tl [0..<length ss])) ss"
  have f: "length r = length ss
       \<and> (\<forall>j < length ss. r ! j
             = (if 1 \<le> j then (ss ! j)\<lparr>prev := Some (j - 1)\<rparr> else ss ! j))"
  proof (cases "ss = []")
    case True
    then show ?thesis by (simp add: r_def)
  next
    case False
    then have "length ss - 1 < length ss" by simp
    from fold_set_prev [OF this] show ?thesis
      unfolding r_def zip_upt_tl by auto
  qed
  have len: "length r = length ss" and nth: "r ! 0 = ss ! 0" if "ss \<noteq> []"
    using f that by simp_all
  have l: "link_prev ss = (if r \<noteq> [] then r[0 := (r ! 0)\<lparr>prev := Some 0\<rparr>] else r)"
    unfolding r_def by (simp add: link_prev_def Let_def set_prev_def)
  have lr: "length r = length ss" using f by blast
  show "length (link_prev ss) = length ss"
    unfolding l using lr by (cases "r = []") simp_all
  show "link_prev ss ! j = (ss ! j)\<lparr>prev := Some (if j = 0 then 0 else j - 1)\<rparr>"
    if "j < length ss"
  proof -
    have ne: "r \<noteq> []" using that lr by auto
    have rj: "r ! j = (if 1 \<le> j then (ss ! j)\<lparr>prev := Some (j - 1)\<rparr> else ss ! j)"
      using f that by blast
    show ?thesis
    proof (cases "j = 0")
      case True
      have "0 < length r" using ne by simp
      then have "r[0 := (r ! 0)\<lparr>prev := Some 0\<rparr>] ! 0 = (r ! 0)\<lparr>prev := Some 0\<rparr>"
        by (rule nth_list_update_eq)
      then show ?thesis unfolding l using ne rj True by simp
    next
      case False
      then show ?thesis unfolding l using ne rj by simp
    qed
  qed
qed

lemma diff_step_populated:
  assumes "\<not> falsy (png_diff_data (shots st ! i))"
    and "\<not> falsy (png_diff_mask_data (shots st ! i))"
  shows "diff_step env i st = Inr st"
  using assms
  by (simp add: diff_step_def fill_diff_def fill_diff_mask_def Let_def split: option.splits)

lemma diff_loop_populated:
  assumes "\<forall>j \<in> set js. \<not> falsy (png_diff_data (shots st ! j))
              \<and> \<not> falsy (png_diff_mask_data (shots st ! j))"
  shows "diff_loop env js st = Inr st"
  using assms by (induction js) (simp_all add: diff_step_populated)

text \<open>
  C10. When \<open>get_screenshots\<close> returns a list for a recording, the list has one
  element for each screenshot of the recording, the first element's \<open>prev\<close> refers to
  the first element itself, and the \<open>prev\<close> of every element at a position
  \<open>i\<close> from 1 on refers to the element at position \<open>i - 1\<close>.
\<close>

theorem get_screenshots_prev_chain:
  assumes "get_screenshots db save_diff env (Some r) = Inr res"
  shows "length (screenshots res) = length (get_rows (screenshot_rows db) (rec_timestamp r))
       \<and> (screenshots res \<noteq> [] \<longrightarrow> prev (screenshots res ! 0) = Some 0)
       \<and> (\<forall>i. 1 \<le> i \<and> i < length (screenshots res)
              \<longrightarrow> prev (screenshots res ! i) = Some (i - 1))"
proof -
  define rows where "rows = get_rows (screenshot_rows db) (rec_timestamp r)"
  have s: "screenshots res = link_prev rows
      \<or> screenshots res = map (stepped env (link_prev rows)) (link_prev rows)"
  proof (cases save_diff)
    case True
    then have "save_screenshot_diff env (link_prev rows) = Inr res"
      using assms by (simp add: get_screenshots_def rows_def)
    then show ?thesis using save_screenshot_diff_Inr(1) by blast
  next
    case False
    then show ?thesis using assms by (auto simp add: get_screenshots_def rows_def)
  qed
  have len: "length (screenshots res) = length rows"
    using s link_prev_nth(1) [where ss = rows] by auto
  have p: "prev (screenshots res ! i) = Some (if i = 0 then 0 else i - 1)"
    if "i < length rows" for i
    using s that link_prev_nth [where ss = rows] by (auto simp: stepped_fields)
  have first: "prev (screenshots res ! 0) = Some 0" if "screenshots res \<noteq> []"
  proof -
    have "0 < length rows" using that len by auto
    from p [OF this] show ?thesis by simp
  qed
  have rest: "prev (screenshots res ! i) = Some (i - 1)"
    if "1 \<le> i \<and> i < length (screenshots res)" for i
  proof -
    have "i < length rows" using that len by simp
    from p [OF this] show ?thesis using that by simp
  qed
  show ?thesis
    unfolding rows_def [symmetric] using len first rest by blast
qed

text \<open>
  Witness for C10: the two screenshots of recording 1 in the example storage, with the
  diff pass on.
\<close>

theorem get_screenshots_prev_chain_witness:
  "\<exists>res. get_screenshots example_db True concat_env (Some \<lparr>rec_timestamp = 1\<rparr>) = Inr res
     \<and> length (screenshots res) = 2
     \<and> prev (screenshots res ! 0) = Some 0
     \<and> prev (screenshots res ! 1) = Some 0"
proof -
  have "\<not> isl (get_screenshots example_db True concat_env (Some \<lparr>rec_timestamp = 1\<rparr>))"
    by code_simp
  then obtain res
    where r: "get_screenshots example_db True concat_env (Some \<lparr>rec_timestamp = 1\<rparr>) = Inr res"
    by (cases "get_screenshots example_db True concat_env (Some \<lparr>rec_timestamp = 1\<rparr>)") auto
  have n: "length (get_rows (screenshot_rows example_db) (rec_timestamp \<lparr>rec_timestamp = 1\<rparr>))
      = 2"
    by code_simp
  have l: "length (screenshots res) = 2"
    using get_screenshots_prev_chain [OF r] n by simp
  then have ne: "screenshots res \<noteq> []" by auto
  have "prev (screenshots res ! 0) = Some 0 \<and> prev (screenshots res ! 1) = Some 0"
    using get_screenshots_prev_chain [OF r] l ne by auto
  then show ?thesis using r l by blast
qed

text \<open>
  C9. Called for no recording (None, which is what looking up a recording that does
  not exist gives), each of the three accessors raises before it queries anything:
  \<open>get_action_events\<close> by its assertion, \<open>get_screenshots\<close> and
  \<open>get_window_events\<close> by reading \<open>recording.timestamp\<close>. None returns a list.
\<close>

theorem accessors_raise_without_recording:
  "get_action_events db stop_sequences None = Inl AssertionError
   \<and> get_screenshots db save_diff env None = Inl AttributeError
   \<and> get_window_events db None = Inl AttributeError"
  by (simp add: get_action_events_def get_screenshots_def get_window_events_def)

text \<open>
  C5, as amended. A pass skips a screenshot, leaving it as it is, when its \<open>prev\<close>
  is None. In a list linked as \<open>get_screenshots\<close> links it every screenshot has a
  \<open>prev\<close>, the first one itself, and none is skipped: after a pass that returns,
  each diff field of every screenshot, the first included, holds its cached value if
  it had one, and otherwise the value computed from the screenshot's image and its
  \<open>prev\<close>'s (for the first screenshot, its own image twice).
\<close>

theorem save_screenshot_diff_skips_without_prev_only:
  "(\<forall>res i. save_screenshot_diff env ss = Inr res \<and> i < length ss \<and> prev (ss ! i) = None
        \<longrightarrow> screenshots res ! i = ss ! i)
   \<and> (\<forall>res i. save_screenshot_diff env (link_prev ss) = Inr res \<and> i < length ss
        \<longrightarrow> prev (link_prev ss ! i) = Some (if i = 0 then 0 else i - 1)
          \<and> png_diff_data (screenshots res ! i)
            = (if falsy (png_diff_data (ss ! i))
               then diff_binary env (png_data (ss ! i))
                      (png_data (ss ! (if i = 0 then 0 else i - 1)))
               else png_diff_data (ss ! i))
          \<and> png_diff_mask_data (screenshots res ! i)
            = (if falsy (png_diff_mask_data (ss ! i))
               then diff_mask_binary env (png_data (ss ! i))
                      (png_data (ss ! (if i = 0 then 0 else i - 1)))
               else png_diff_mask_data (ss ! i)))"
proof (intro conjI allI impI)
  fix res i
  assume a: "save_screenshot_diff env ss = Inr res \<and> i < length ss \<and> prev (ss ! i) = None"
  then have "screenshots res ! i = stepped env ss (ss ! i)"
    using save_screenshot_diff_Inr(1) [of env ss res] by simp
  then show "screenshots res ! i = ss ! i"
    using a stepped_None(1) by simp
next
  fix res i
  assume a: "save_screenshot_diff env (link_prev ss) = Inr res \<and> i < length ss"
  let ?p = "if i = 0 then 0 else i - 1"
  have li: "link_prev ss ! i = (ss ! i)\<lparr>prev := Some ?p\<rparr>"
    using a link_prev_nth(2) by simp
  have pl: "?p < length ss" using a by auto
  have lp: "png_data (link_prev ss ! ?p) = png_data (ss ! ?p)"
    using link_prev_nth(2) [OF pl] by simp
  have e: "screenshots res ! i = stepped env (link_prev ss) (link_prev ss ! i)"
    using a save_screenshot_diff_Inr(1) [of env "link_prev ss" res] link_prev_nth(1) [of ss]
    by simp
  show "prev (link_prev ss ! i) = Some ?p" using li by simp
  show "png_diff_data (screenshots res ! i)
      = (if falsy (png_diff_data (ss ! i))
         then diff_binary env (png_data (ss ! i)) (png_data (ss ! ?p))
         else png_diff_data (ss ! i))"
    unfolding e stepped_fields diff_after_def using lp by (simp add: li)
  show "png_diff_mask_data (screenshots res ! i)
      = (if falsy (png_diff_mask_data (ss ! i))
         then diff_mask_binary env (png_data (ss ! i)) (png_data (ss ! ?p))
         else png_diff_mask_data (ss ! i))"
    unfolding e stepped_fields mask_after_def using lp by (simp add: li)
qed

text \<open>
  Witness for C5: in a list whose first screenshot has no \<open>prev\<close>, the first is left
  as it is; in the same list linked by \<open>link_prev\<close>, the first screenshot gets a diff
  and a mask computed from its own image.
\<close>

theorem save_screenshot_diff_skips_without_prev_only_witness:
  "(\<exists>res. save_screenshot_diff concat_env
             [raw_shot 10 [1], (raw_shot 20 [2])\<lparr>prev := Some 0\<rparr>] = Inr res
        \<and> screenshots res ! 0 = raw_shot 10 [1])
   \<and> (\<exists>res. save_screenshot_diff concat_env (link_prev [raw_shot 10 [1], raw_shot 20 [2]])
             = Inr res
        \<and> png_diff_data (screenshots res ! 0) = Some [1, 1]
        \<and> png_diff_mask_data (screenshots res ! 0) = Some [1, 1])"
proof -
  let ?a = "[raw_shot 10 [1], (raw_shot 20 [2])\<lparr>prev := Some 0\<rparr>]"
  let ?b = "[raw_shot 10 [1], raw_shot 20 [2]]"
  have "\<not> isl (save_screenshot_diff concat_env ?a)" by code_simp
  then obtain ra where ra: "save_screenshot_diff concat_env ?a = Inr ra"
    by (cases "save_screenshot_diff concat_env ?a") auto
  have "\<not> isl (save_screenshot_diff concat_env (link_prev ?b))" by code_simp
  then obtain rb where rb: "save_screenshot_diff concat_env (link_prev ?b) = Inr rb"
    by (cases "save_screenshot_diff concat_env (link_prev ?b)") auto
  have 1: "screenshots ra ! 0 = raw_shot 10 [1]"
    using save_screenshot_diff_skips_without_prev_only [of concat_env ?a] ra
    by (simp add: raw_shot_def)
  have 2: "png_diff_data (screenshots rb ! 0) = Some [1, 1]
      \<and> png_diff_mask_data (screenshots rb ! 0) = Some [1, 1]"
    using save_screenshot_diff_skips_without_prev_only [of concat_env ?b] rb
    by (simp add: raw_shot_def falsy_def concat_env_def)
  show ?thesis using ra rb 1 2 by blast
qed

text \<open>
  Counterexample to C5 as stated: \<open>get_screenshots\<close> with the diff pass on, for the
  two screenshots of recording 1 in the example storage. The first screenshot, whose
  \<open>prev\<close> is itself, comes back with a diff and a mask computed from its own image,
  and the pass has made four computations, two for each screenshot.
\<close>

theorem get_screenshots_diffs_first_counterexample:
  "get_screenshots example_db True concat_env (Some \<lparr>rec_timestamp = 1\<rparr>)
   = Inr \<lparr>screenshots =
        [\<lparr>recording_timestamp = 1, timestamp = 10, png_data = [1],
            png_diff_data = Some [1, 1], png_diff_mask_data = Some [1, 1],
            prev = Some 0\<rparr>,
         \<lparr>recording_timestamp = 1, timestamp = 20, png_data = [2],
            png_diff_data = Some [2, 1], png_diff_mask_data = Some [1, 2],
            prev = Some 0\<rparr>],
        computations = 4,
        writes =
          [[\<lparr>recording_timestamp = 1, timestamp = 10, png_data = [1],
               png_diff_data = Some [1, 1], png_diff_mask_data = Some [1, 1],
               prev = Some 0\<rparr>,
            \<lparr>recording_timestamp = 1, timestamp = 20, png_data = [2],
               png_diff_data = Some [2, 1], png_diff_mask_data = Some [1, 2],
               prev = Some 0\<rparr>]]\<rparr>"
  by code_simp

text \<open>
  C6. On a list whose diff fields are all populated a pass returns the list as it is,
  with no diff computation and no write. Whenever a pass returns, the number of its
  diff computations is the number of absent diff fields among the screenshots that
  have a \<open>prev\<close> (a field that is cached is not computed), and it has issued one
  bulk write of the whole list if that number is positive and no write otherwise.
\<close>

theorem save_screenshot_diff_idempotent:
  "((\<forall>s \<in> set ss. \<not> falsy (png_diff_data s) \<and> \<not> falsy (png_diff_mask_data s))
      \<longrightarrow> save_screenshot_diff env ss
          = Inr \<lparr>screenshots = ss, computations = 0, writes = []\<rparr>)
   \<and> (\<forall>res. save_screenshot_diff env ss = Inr res
        \<longrightarrow> computations res = sum_list (map absent_fields ss)
          \<and> writes res = (if 0 < computations res then [screenshots res] else []))"
proof (intro conjI allI impI)
  assume a: "\<forall>s \<in> set ss. \<not> falsy (png_diff_data s) \<and> \<not> falsy (png_diff_mask_data s)"
  let ?st0 = "\<lparr>shots = ss, data_updated = False, computed = 0\<rparr>"
  have "\<forall>j \<in> set [0..<length ss]. \<not> falsy (png_diff_data (shots ?st0 ! j))
              \<and> \<not> falsy (png_diff_mask_data (shots ?st0 ! j))"
    using a by simp
  then have "diff_loop env [0..<length ss] ?st0 = Inr ?st0"
    by (rule diff_loop_populated)
  then show "save_screenshot_diff env ss
      = Inr \<lparr>screenshots = ss, computations = 0, writes = []\<rparr>"
    by (simp add: save_screenshot_diff_def)
next
  fix res
  assume r: "save_screenshot_diff env ss = Inr res"
  show "computations res = sum_list (map absent_fields ss)"
    using r by (rule save_screenshot_diff_Inr(2))
  show "writes res = (if 0 < computations res then [screenshots res] else [])"
    using r by (rule save_screenshot_diff_Inr(3))
qed

text \<open>
  Witness for C6: a list of one screenshot with both diff fields cached is returned
  with no computation and no write; the pass over the two linked example screenshots,
  which have nothing cached, makes four computations and one bulk write.
\<close>

theorem save_screenshot_diff_idempotent_witness:
  "save_screenshot_diff concat_env
     [(raw_shot 10 [1])\<lparr>png_diff_data := Some [7], png_diff_mask_data := Some [8],
                         prev := Some 0\<rparr>]
   = Inr \<lparr>screenshots =
            [(raw_shot 10 [1])\<lparr>png_diff_data := Some [7], png_diff_mask_data := Some [8],
                                prev := Some 0\<rparr>],
          computations = 0, writes = []\<rparr>
   \<and> (\<exists>res. save_screenshot_diff concat_env (link_prev [raw_shot 10 [1], raw_shot 20 [2]])
             = Inr res
        \<and> computations res = 4 \<and> writes res = [screenshots res])"
proof -
  let ?c = "[(raw_shot 10 [1])\<lparr>png_diff_data := Some [7], png_diff_mask_data := Some [8],
                                prev := Some 0\<rparr>]"
  let ?b = "link_prev [raw_shot 10 [1], raw_shot 20 [2]]"
  have 1: "save_screenshot_diff concat_env ?c
      = Inr \<lparr>screenshots = ?c, computations = 0, writes = []\<rparr>"
    using save_screenshot_diff_idempotent [of ?c concat_env]
    by (simp add: raw_shot_def falsy_def)
  have "\<not> isl (save_screenshot_diff concat_env ?b)" by code_simp
  then obtain rb where rb: "save_screenshot_diff concat_env ?b = Inr rb"
    by (cases "save_screenshot_diff concat_env ?b") auto
  have n: "sum_list (map absent_fields ?b) = 4" by code_simp
  have 2: "computations rb = 4 \<and> writes rb = [screenshots rb]"
    using save_screenshot_diff_idempotent [of ?b concat_env] rb n by simp
  show ?thesis using 1 2 rb by blast
qed

end
